theory Spec2Isabelle
  imports Main
begin

section \<open>The LRU cache of \<^verbatim>\<open>lru_cache.py\<close>: a dictionary over a doubly linked list\<close>

text \<open>
  The Python objects live in an explicit store: a node is addressed by a natural number,
  the store maps every address to the node's four fields, and a link field holds
  \<open>None\<close> or the address of another node. Creating a \<^verbatim>\<open>_Node\<close> takes the
  next unused address. Every attribute access on \<^verbatim>\<open>None\<close> and every
  \<^verbatim>\<open>del\<close> of a missing key is a branch that returns the exception as a value.
  The lock is not part of the state: each call is one atomic step of the model.
\<close>

subsection \<open>Data\<close>

datatype error = ValueError | AttributeError | KeyError

type_synonym addr = nat

record Node =
  node_key :: int
  node_value :: int
  node_prev :: "addr option"
  node_next :: "addr option"

record LRUCache =
  capacity :: int
  cache :: "int \<rightharpoonup> addr"
  head :: addr
  tail :: addr
  heap :: "addr \<Rightarrow> Node"
  fresh :: addr

text \<open>\<^verbatim>\<open>_Node.__init__(key, value)\<close>: both links start as \<open>None\<close>.\<close>

definition new_Node :: "int \<Rightarrow> int \<Rightarrow> Node" where
  "new_Node k v = \<lparr>node_key = k, node_value = v, node_prev = None, node_next = None\<rparr>"

text \<open>Attribute assignments \<^verbatim>\<open>a.prev = x\<close>, \<^verbatim>\<open>a.next = x\<close>, \<^verbatim>\<open>a.value = x\<close>.\<close>

definition set_prev :: "(addr \<Rightarrow> Node) \<Rightarrow> addr \<Rightarrow> addr option \<Rightarrow> (addr \<Rightarrow> Node)" where
  "set_prev h a x = h(a := (h a)\<lparr>node_prev := x\<rparr>)"

definition set_next :: "(addr \<Rightarrow> Node) \<Rightarrow> addr \<Rightarrow> addr option \<Rightarrow> (addr \<Rightarrow> Node)" where
  "set_next h a x = h(a := (h a)\<lparr>node_next := x\<rparr>)"

definition set_value :: "(addr \<Rightarrow> Node) \<Rightarrow> addr \<Rightarrow> int \<Rightarrow> (addr \<Rightarrow> Node)" where
  "set_value h a x = h(a := (h a)\<lparr>node_value := x\<rparr>)"

text \<open>Object creation: the new node gets the next unused address.\<close>

definition alloc :: "LRUCache \<Rightarrow> Node \<Rightarrow> addr \<times> LRUCache" where
  "alloc s n = (fresh s, s\<lparr>heap := (heap s)(fresh s := n), fresh := Suc (fresh s)\<rparr>)"

subsection \<open>Operations\<close>

text \<open>
  \<^verbatim>\<open>LRUCache.__init__(capacity)\<close>: the two dummy nodes are created with the
  default key and value \<open>0\<close> and linked to each other.
\<close>

definition init :: "int \<Rightarrow> error + LRUCache" where
  "init cap =
     (if cap \<le> 0 then Inl ValueError
      else
        let h0 = (\<lambda>_. new_Node 0 0);
            hd_a = 0;
            tl_a = 1;
            h1 = set_next h0 hd_a (Some tl_a);
            h2 = set_prev h1 tl_a (Some hd_a)
        in Inr \<lparr>capacity = cap, cache = Map.empty, head = hd_a, tail = tl_a,
                 heap = h2, fresh = 2\<rparr>)"

text \<open>\<^verbatim>\<open>_add_node(node)\<close>: four assignments, in the order of the source.\<close>

definition add_node :: "LRUCache \<Rightarrow> addr \<Rightarrow> error + LRUCache" where
  "add_node s n =
     (let h1 = set_prev (heap s) n (Some (head s));
          h2 = set_next h1 n (node_next (h1 (head s)))
      in case node_next (h2 (head s)) of
           None \<Rightarrow> Inl AttributeError
         | Some x \<Rightarrow>
             let h3 = set_prev h2 x (Some n);
                 h4 = set_next h3 (head s) (Some n)
             in Inr (s\<lparr>heap := h4\<rparr>))"

text \<open>\<^verbatim>\<open>_remove_node(node)\<close>: the node's own links are left as they were.\<close>

definition remove_node :: "LRUCache \<Rightarrow> addr \<Rightarrow> error + LRUCache" where
  "remove_node s n =
     (let prev_node = node_prev (heap s n);
          next_node = node_next (heap s n)
      in case prev_node of
           None \<Rightarrow> Inl AttributeError
         | Some p \<Rightarrow>
             let h1 = set_next (heap s) p next_node
             in case next_node of
                  None \<Rightarrow> Inl AttributeError
                | Some q \<Rightarrow> Inr (s\<lparr>heap := set_prev h1 q prev_node\<rparr>))"

text \<open>\<^verbatim>\<open>_move_to_head(node)\<close>.\<close>

definition move_to_head :: "LRUCache \<Rightarrow> addr \<Rightarrow> error + LRUCache" where
  "move_to_head s n =
     (case remove_node s n of
        Inl e \<Rightarrow> Inl e
      | Inr s1 \<Rightarrow> add_node s1 n)"

text \<open>
  \<^verbatim>\<open>_pop_tail()\<close>: when \<^verbatim>\<open>tail.prev\<close> is \<open>None\<close>, the call
  \<^verbatim>\<open>_remove_node(None)\<close> fails on its first attribute read.
\<close>

definition pop_tail :: "LRUCache \<Rightarrow> error + (addr \<times> LRUCache)" where
  "pop_tail s =
     (case node_prev (heap s (tail s)) of
        None \<Rightarrow> Inl AttributeError
      | Some lru_node \<Rightarrow>
          (case remove_node s lru_node of
             Inl e \<Rightarrow> Inl e
           | Inr s1 \<Rightarrow> Inr (lru_node, s1)))"

text \<open>\<^verbatim>\<open>get(key)\<close> returns the value read and the state after the call.\<close>

definition get :: "LRUCache \<Rightarrow> int \<Rightarrow> error + (int \<times> LRUCache)" where
  "get s k =
     (case cache s k of
        None \<Rightarrow> Inr (- 1, s)
      | Some n \<Rightarrow>
          (case move_to_head s n of
             Inl e \<Rightarrow> Inl e
           | Inr s1 \<Rightarrow> Inr (node_value (heap s1 n), s1)))"

text \<open>
  The eviction branch of \<^verbatim>\<open>put\<close>: \<^verbatim>\<open>tail = self._pop_tail()\<close> and
  \<^verbatim>\<open>del self.cache[tail.key]\<close>, which raises \<^verbatim>\<open>KeyError\<close> on a key the
  dictionary does not hold.
\<close>

definition evict :: "LRUCache \<Rightarrow> error + LRUCache" where
  "evict s =
     (case pop_tail s of
        Inl e \<Rightarrow> Inl e
      | Inr (tl_n, s1) \<Rightarrow>
          let k = node_key (heap s1 tl_n)
          in if cache s1 k = None then Inl KeyError
             else Inr (s1\<lparr>cache := (cache s1)(k := None)\<rparr>))"

text \<open>\<^verbatim>\<open>put(key, value)\<close>; \<^verbatim>\<open>len(self.cache)\<close> is the number of keys.\<close>

definition put :: "LRUCache \<Rightarrow> int \<Rightarrow> int \<Rightarrow> error + LRUCache" where
  "put s k v =
     (case cache s k of
        None \<Rightarrow>
          let (new_node, s1) = alloc s (new_Node k v)
          in (case (if int (card (dom (cache s1))) \<ge> capacity s1 then evict s1 else Inr s1) of
                Inl e \<Rightarrow> Inl e
              | Inr s2 \<Rightarrow>
                  (case add_node s2 new_node of
                     Inl e \<Rightarrow> Inl e
                   | Inr s3 \<Rightarrow> Inr (s3\<lparr>cache := (cache s3)(k \<mapsto> new_node)\<rparr>)))
      | Some n \<Rightarrow> move_to_head (s\<lparr>heap := set_value (heap s) n v\<rparr>) n)"

subsection \<open>Runs of calls, with the time of each key's last touch\<close>

text \<open>
  A run is a list of calls on one cache. Beside the cache, a run keeps a clock that
  counts the calls made and, for every key, the clock value of the last call that touched
  it: a \<^verbatim>\<open>get\<close> that finds the key, or any \<^verbatim>\<open>put\<close> of the key. The clock
  and the touch times are not part of the program; they only record its history.
\<close>

datatype op = Get int | Put int int

record run_state =
  state :: LRUCache
  clock :: nat
  last_touch :: "int \<rightharpoonup> nat"

fun apply_op :: "LRUCache \<Rightarrow> op \<Rightarrow> error + LRUCache" where
  "apply_op s (Get k) = (case get s k of Inl e \<Rightarrow> Inl e | Inr (v, s1) \<Rightarrow> Inr s1)"
| "apply_op s (Put k v) = put s k v"

fun touch :: "run_state \<Rightarrow> op \<Rightarrow> (int \<rightharpoonup> nat)" where
  "touch r (Get k) =
     (if cache (state r) k = None then last_touch r else (last_touch r)(k \<mapsto> clock r))"
| "touch r (Put k v) = (last_touch r)(k \<mapsto> clock r)"

definition step :: "run_state \<Rightarrow> op \<Rightarrow> error + run_state" where
  "step r x =
     (case apply_op (state r) x of
        Inl e \<Rightarrow> Inl e
      | Inr s1 \<Rightarrow> Inr \<lparr>state = s1, clock = Suc (clock r), last_touch = touch r x\<rparr>)"

fun run :: "run_state \<Rightarrow> op list \<Rightarrow> error + run_state" where
  "run r [] = Inr r"
| "run r (x # xs) = (case step r x of Inl e \<Rightarrow> Inl e | Inr r1 \<Rightarrow> run r1 xs)"

text \<open>The state reached from \<^verbatim>\<open>LRUCache(cap)\<close> by the calls \<open>ops\<close>, in order.\<close>

definition reach :: "int \<Rightarrow> op list \<Rightarrow> error + run_state" where
  "reach cap ops =
     (case init cap of
        Inl e \<Rightarrow> Inl e
      | Inr s \<Rightarrow> run \<lparr>state = s, clock = 0, last_touch = Map.empty\<rparr> ops)"






subsection \<open>Observing the recency list\<close>

text \<open>
  Walking from a node along \<^verbatim>\<open>next\<close> until the tail sentinel, with a bound on
  the number of steps; the walk fails when a link is \<open>None\<close> or the bound is used up.
\<close>

fun walk :: "(addr \<Rightarrow> Node) \<Rightarrow> addr \<Rightarrow> nat \<Rightarrow> addr \<Rightarrow> addr list option" where
  "walk h t 0 a = (if a = t then Some [] else None)"
| "walk h t (Suc n) a =
     (if a = t then Some []
      else case node_next (h a) of
             None \<Rightarrow> None
           | Some b \<Rightarrow> map_option ((#) a) (walk h t n b))"

text \<open>
  The data nodes between the sentinels, most recently used first. The store holds
  \<open>fresh s\<close> nodes, so a walk of that many steps that has not met the tail is in a cycle.
\<close>

definition data_nodes :: "LRUCache \<Rightarrow> addr list option" where
  "data_nodes s = map_option tl (walk (heap s) (tail s) (fresh s) (head s))"

definition entries :: "LRUCache \<Rightarrow> (int \<times> int) list option" where
  "entries s =
     map_option (map (\<lambda>a. (node_key (heap s a), node_value (heap s a)))) (data_nodes s)"

text \<open>The value stored under a key, read through the dictionary.\<close>

definition stored :: "LRUCache \<Rightarrow> int \<rightharpoonup> int" where
  "stored s k = map_option (\<lambda>a. node_value (heap s a)) (cache s k)"

subsection \<open>The shape of a well-formed cache\<close>

text \<open>
  \<open>dll h p as q\<close>: in the store \<open>h\<close>, following \<^verbatim>\<open>next\<close> from \<open>p\<close> visits the
  nodes \<open>as\<close> in order and then \<open>q\<close>, and every \<^verbatim>\<open>prev\<close> link on the way points
  one step back.
\<close>

fun dll :: "(addr \<Rightarrow> Node) \<Rightarrow> addr \<Rightarrow> addr list \<Rightarrow> addr \<Rightarrow> bool" where
  "dll h p [] q \<longleftrightarrow> node_next (h p) = Some q \<and> node_prev (h q) = Some p"
| "dll h p (a # as) q \<longleftrightarrow> node_next (h p) = Some a \<and> node_prev (h a) = Some p \<and> dll h a as q"

text \<open>The nodes \<open>as\<close> lie between the two sentinels, and no node occurs twice.\<close>

definition chain :: "LRUCache \<Rightarrow> addr list \<Rightarrow> bool" where
  "chain s as \<longleftrightarrow> dll (heap s) (head s) as (tail s) \<and> distinct (head s # as @ [tail s])"

text \<open>Two stores whose nodes carry the same keys and values: only links may differ.\<close>

definition same_data :: "(addr \<Rightarrow> Node) \<Rightarrow> (addr \<Rightarrow> Node) \<Rightarrow> bool" where
  "same_data h h' \<longleftrightarrow> (\<forall>b. node_key (h' b) = node_key (h b) \<and> node_value (h' b) = node_value (h b))"

definition key_of :: "LRUCache \<Rightarrow> addr \<Rightarrow> int" where
  "key_of s a = node_key (heap s a)"

text \<open>
  The invariant of the cache, for the list \<open>as\<close> of its data nodes: the nodes are
  linked between the sentinels, all of them were created before, the dictionary maps
  exactly the keys of the data nodes, each to its own node, no key occurs twice, and
  the number of nodes is within the positive capacity.
\<close>

definition cache_inv :: "LRUCache \<Rightarrow> addr list \<Rightarrow> bool" where
  "cache_inv s as \<longleftrightarrow>
     chain s as \<and>
     (\<forall>a \<in> set (head s # as @ [tail s]). a < fresh s) \<and>
     (\<forall>k a. cache s k = Some a \<longleftrightarrow> a \<in> set as \<and> key_of s a = k) \<and>
     distinct (map (key_of s) as) \<and>
     0 < capacity s \<and> int (length as) \<le> capacity s"

text \<open>
  The invariant of a run: the cache is well formed, every data node's key has been
  touched before now, and along the list each node was touched later than all nodes
  behind it.
\<close>

definition stamp :: "run_state \<Rightarrow> addr \<Rightarrow> nat option" where
  "stamp r a = last_touch r (key_of (state r) a)"

definition newer :: "run_state \<Rightarrow> addr \<Rightarrow> addr \<Rightarrow> bool" where
  "newer r a b \<longleftrightarrow> (\<exists>m n. stamp r a = Some m \<and> stamp r b = Some n \<and> n < m)"

definition run_inv :: "run_state \<Rightarrow> addr list \<Rightarrow> bool" where
  "run_inv r as \<longleftrightarrow>
     cache_inv (state r) as \<and>
     (\<forall>a \<in> set as. \<exists>n. stamp r a = Some n \<and> n < clock r) \<and>
     sorted_wrt (newer r) as"






text \<open>The equations that evaluate a run on concrete calls.\<close>

lemmas run_eval = reach_def init_def step_def put_def get_def alloc_def evict_def pop_tail_def
  move_to_head_def remove_node_def add_node_def set_prev_def set_next_def set_value_def
  new_Node_def Let_def


section \<open>Properties of the linked list\<close>

lemma dll_cong:
  "\<forall>x \<in> set (p # as). node_next (h' x) = node_next (h x) \<Longrightarrow>
   \<forall>x \<in> set (as @ [q]). node_prev (h' x) = node_prev (h x) \<Longrightarrow>
   dll h' p as q = dll h p as q"
  by (induction as arbitrary: p) auto

lemma dll_append: "dll h p (xs @ a # ys) q \<longleftrightarrow> dll h p xs a \<and> dll h a ys q"
  by (induction xs arbitrary: p) auto

lemma dll_first: "dll h p as q \<Longrightarrow> node_next (h p) = Some (hd (as @ [q]))"
  by (cases as) auto

lemma dll_last: "dll h p as q \<Longrightarrow> node_prev (h q) = Some (last (p # as))"
  by (induction as arbitrary: p) auto

lemma dll_redirect:
  "dll h p xs a \<Longrightarrow> distinct (p # xs) \<Longrightarrow> q' \<notin> set (p # xs) \<Longrightarrow>
   dll (set_prev (set_next h (last (p # xs)) (Some q')) q' (Some (last (p # xs)))) p xs q'"
proof (induction xs arbitrary: p)
  case Nil
  then show ?case by (simp add: set_prev_def set_next_def)
next
  case (Cons x xs)
  from Cons.prems have "dll h x xs a" "distinct (x # xs)" "q' \<notin> set (x # xs)" by auto
  from Cons.IH[OF this] Cons.prems show ?case
    by (auto simp: set_prev_def set_next_def)
qed

lemma dll_unlink:
  assumes "dll h p (xs @ a # ys) q" and "distinct (p # xs @ a # ys @ [q])"
  shows "dll (set_prev (set_next h (last (p # xs)) (Some (hd (ys @ [q]))))
              (hd (ys @ [q])) (Some (last (p # xs)))) p (xs @ ys) q"
proof -
  let ?p = "last (p # xs)" and ?q = "hd (ys @ [q])"
  let ?h = "set_prev (set_next h ?p (Some ?q)) ?q (Some ?p)"
  from assms have l: "dll h p xs a" and r: "dll h a ys q" by (simp_all add: dll_append)
  have pin: "?p \<in> set (p # xs)" by (metis last_in_set list.distinct(1))
  have qin: "?q \<in> set (ys @ [q])" by (metis hd_in_set snoc_eq_iff_butlast)
  from assms(2) qin have "?q \<notin> set (p # xs)" by auto
  with l assms(2) have A: "dll ?h p xs ?q" by (intro dll_redirect) auto
  show ?thesis
  proof (cases ys)
    case Nil
    with A show ?thesis by simp
  next
    case (Cons y ys')
    with r have "dll h y ys' q" by simp
    moreover have "dll ?h y ys' q = dll h y ys' q"
      using assms(2) pin Cons by (intro dll_cong) (auto simp: set_prev_def set_next_def)
    ultimately show ?thesis using A Cons by (simp add: dll_append)
  qed
qed

subsection \<open>Unlinking and inserting a node\<close>

lemma same_data_trans: "same_data h h1 \<Longrightarrow> same_data h1 h2 \<Longrightarrow> same_data h h2"
  by (simp add: same_data_def)

lemma same_data_set_prev: "same_data h (set_prev h a x)"
  by (simp add: same_data_def set_prev_def)

lemma same_data_set_next: "same_data h (set_next h a x)"
  by (simp add: same_data_def set_next_def)

lemma remove_node_chain:
  assumes "chain s as" and "a \<in> set as"
  shows "\<exists>h'. remove_node s a = Inr (s\<lparr>heap := h'\<rparr>) \<and> dll h' (head s) (remove1 a as) (tail s)
           \<and> same_data (heap s) h'"
proof -
  from assms(2) obtain xs ys where as: "as = xs @ a # ys" by (auto dest: split_list)
  from assms(1) have d: "dll (heap s) (head s) (xs @ a # ys) (tail s)"
    and dist: "distinct (head s # xs @ a # ys @ [tail s])"
    by (simp_all add: chain_def as)
  from dist have rm: "remove1 a as = xs @ ys" by (simp add: as remove1_append)
  let ?p = "last (head s # xs)" and ?q = "hd (ys @ [tail s])"
  from d have pv: "node_prev (heap s a) = Some ?p" and nx: "node_next (heap s a) = Some ?q"
    by (auto simp only: dll_append dest: dll_last dll_first)
  let ?h = "set_prev (set_next (heap s) ?p (Some ?q)) ?q (Some ?p)"
  have "remove_node s a = Inr (s\<lparr>heap := ?h\<rparr>)"
    by (simp add: remove_node_def pv nx del: last.simps)
  moreover have "dll ?h (head s) (remove1 a as) (tail s)"
    unfolding rm by (rule dll_unlink[OF d dist])
  moreover have "same_data (heap s) ?h"
    by (rule same_data_trans[OF same_data_set_next same_data_set_prev])
  ultimately show ?thesis by blast
qed

lemma add_node_chain:
  assumes "chain s as" and "n \<notin> set (head s # as @ [tail s])"
  shows "\<exists>h'. add_node s n = Inr (s\<lparr>heap := h'\<rparr>) \<and> dll h' (head s) (n # as) (tail s)
           \<and> same_data (heap s) h'"
proof -
  from assms(1) have d: "dll (heap s) (head s) as (tail s)"
    and dist: "distinct (head s # as @ [tail s])"
    by (simp_all add: chain_def)
  let ?x = "hd (as @ [tail s])"
  from d have nx: "node_next (heap s (head s)) = Some ?x" by (rule dll_first)
  let ?h1 = "set_prev (heap s) n (Some (head s))"
  let ?h2 = "set_next ?h1 n (Some ?x)"
  let ?h3 = "set_prev ?h2 ?x (Some n)"
  let ?h4 = "set_next ?h3 (head s) (Some n)"
  from assms(2) have nh: "n \<noteq> head s" by simp
  have run: "add_node s n = Inr (s\<lparr>heap := ?h4\<rparr>)"
    using nh nx by (simp add: add_node_def Let_def set_prev_def set_next_def)
  have sd: "same_data (heap s) ?h4"
    by (simp add: same_data_def set_prev_def set_next_def)
  have "dll ?h4 (head s) (n # as) (tail s)"
  proof (cases as)
    case Nil
    with assms(2) dist show ?thesis by (auto simp: set_prev_def set_next_def)
  next
    case (Cons y ys)
    with d have t: "dll (heap s) y ys (tail s)" by simp
    have "dll ?h4 y ys (tail s) = dll (heap s) y ys (tail s)"
      using assms(2) dist Cons by (intro dll_cong) (auto simp: set_prev_def set_next_def)
    with t assms(2) dist Cons show ?thesis by (auto simp: set_prev_def set_next_def)
  qed
  with run sd show ?thesis by blast
qed

lemma move_to_head_chain:
  assumes "chain s as" and "a \<in> set as"
  shows "\<exists>h'. move_to_head s a = Inr (s\<lparr>heap := h'\<rparr>) \<and> chain (s\<lparr>heap := h'\<rparr>) (a # remove1 a as)
           \<and> same_data (heap s) h'"
proof -
  from remove_node_chain[OF assms] obtain h1 where
    r: "remove_node s a = Inr (s\<lparr>heap := h1\<rparr>)" and
    d1: "dll h1 (head s) (remove1 a as) (tail s)" and sd1: "same_data (heap s) h1"
    by blast
  from assms have dist: "distinct (head s # a # remove1 a as @ [tail s])"
    by (auto simp: chain_def)
  let ?s1 = "s\<lparr>heap := h1\<rparr>"
  from d1 dist have c1: "chain ?s1 (remove1 a as)" by (simp add: chain_def)
  from dist have "a \<notin> set (head ?s1 # remove1 a as @ [tail ?s1])" by auto
  from add_node_chain[OF c1 this] obtain h2 where
    a: "add_node ?s1 a = Inr (?s1\<lparr>heap := h2\<rparr>)" and
    d2: "dll h2 (head s) (a # remove1 a as) (tail s)" and sd2: "same_data h1 h2"
    by auto
  have "move_to_head s a = Inr (s\<lparr>heap := h2\<rparr>)" by (simp add: move_to_head_def r a)
  moreover from d2 dist have "chain (s\<lparr>heap := h2\<rparr>) (a # remove1 a as)" by (simp add: chain_def)
  moreover from sd1 sd2 have "same_data (heap s) h2" by (rule same_data_trans)
  ultimately show ?thesis by blast
qed

subsection \<open>Consequences of the invariant\<close>

lemma inv_dom: "cache_inv s as \<Longrightarrow> dom (cache s) = key_of s ` set as"
  by (auto simp: cache_inv_def dom_def)

lemma inv_card: "cache_inv s as \<Longrightarrow> card (dom (cache s)) = length as"
  by (metis inv_dom cache_inv_def distinct_card length_map set_map)

lemma inv_cache_key: "cache_inv s as \<Longrightarrow> a \<in> set as \<Longrightarrow> cache s (key_of s a) = Some a"
  by (simp add: cache_inv_def)

lemma walk_dll:
  "dll h p as q \<Longrightarrow> distinct (p # as @ [q]) \<Longrightarrow> length as < n \<Longrightarrow> walk h q n p = Some (p # as)"
proof (induction as arbitrary: p n)
  case Nil
  then obtain m where "n = Suc m" by (cases n) auto
  with Nil show ?case by (cases m) auto
next
  case (Cons a as)
  then obtain m where n: "n = Suc m" by (cases n) auto
  from Cons.prems n have "walk h q m a = Some (a # as)"
    by (intro Cons.IH) auto
  with Cons.prems n show ?case by auto
qed

lemma bounded_distinct_length:
  assumes "distinct xs" and "\<forall>x \<in> set xs. x < (n::nat)"
  shows "length xs \<le> n"
proof -
  from assms(2) have "set xs \<subseteq> {..<n}" by auto
  then have "card (set xs) \<le> card {..<n}" by (intro card_mono) auto
  with assms(1) show ?thesis by (simp add: distinct_card)
qed

lemma inv_data_nodes: "cache_inv s as \<Longrightarrow> data_nodes s = Some as"
proof -
  assume w: "cache_inv s as"
  then have d: "dll (heap s) (head s) as (tail s)" and dist: "distinct (head s # as @ [tail s])"
    and b: "\<forall>a \<in> set (head s # as @ [tail s]). a < fresh s"
    by (simp_all add: cache_inv_def chain_def)
  from bounded_distinct_length[OF dist b] have "length as < fresh s" by simp
  from walk_dll[OF d dist this] show ?thesis by (simp add: data_nodes_def)
qed

lemma inv_entries:
  "cache_inv s as \<Longrightarrow> entries s = Some (map (\<lambda>a. (node_key (heap s a), node_value (heap s a))) as)"
  by (simp add: entries_def inv_data_nodes)

section \<open>Every call keeps the invariant\<close>

lemma init_inv:
  "0 < c \<Longrightarrow> \<exists>s. init c = Inr s \<and> cache_inv s [] \<and> capacity s = c \<and> cache s = Map.empty"
  by (simp add: init_def cache_inv_def chain_def set_prev_def set_next_def)

lemma same_data_key_of: "same_data (heap s) h' \<Longrightarrow> key_of (s\<lparr>heap := h'\<rparr>) = key_of s"
  by (auto simp: same_data_def key_of_def)

lemma inv_reorder:
  assumes "cache_inv s as" and "chain (s\<lparr>heap := h'\<rparr>) bs" and "key_of (s\<lparr>heap := h'\<rparr>) = key_of s"
    and "set bs = set as"
  shows "cache_inv (s\<lparr>heap := h'\<rparr>) bs"
proof -
  from assms(2) have db: "distinct bs" by (simp add: chain_def)
  from assms(1) have da: "distinct as" by (simp add: cache_inv_def chain_def)
  from db da assms(4) have len: "length bs = length as" by (metis distinct_card)
  from assms(1) have "inj_on (key_of s) (set as)" by (simp add: cache_inv_def distinct_map)
  with db assms(4) have "distinct (map (key_of s) bs)" by (simp add: distinct_map)
  with assms len show ?thesis by (simp add: cache_inv_def)
qed

lemma get_miss: "cache s k = None \<Longrightarrow> get s k = Inr (- 1, s)"
  by (simp add: get_def)

lemma get_hit:
  assumes "cache_inv s as" and "cache s k = Some a"
  shows "\<exists>h'. get s k = Inr (node_value (heap s a), s\<lparr>heap := h'\<rparr>) \<and>
           cache_inv (s\<lparr>heap := h'\<rparr>) (a # remove1 a as) \<and> same_data (heap s) h'"
proof -
  from assms have ain: "a \<in> set as" and c: "chain s as" by (auto simp: cache_inv_def)
  from move_to_head_chain[OF c ain] obtain h' where
    m: "move_to_head s a = Inr (s\<lparr>heap := h'\<rparr>)" and
    c': "chain (s\<lparr>heap := h'\<rparr>) (a # remove1 a as)" and sd: "same_data (heap s) h'"
    by blast
  from ain have "set (a # remove1 a as) = set as" using c by (auto simp: chain_def)
  from inv_reorder[OF assms(1) c' same_data_key_of[OF sd] this]
  have "cache_inv (s\<lparr>heap := h'\<rparr>) (a # remove1 a as)" .
  moreover from sd have "node_value (h' a) = node_value (heap s a)" by (simp add: same_data_def)
  ultimately show ?thesis using m sd assms(2) by (auto simp: get_def)
qed

lemma put_hit:
  assumes "cache_inv s as" and "cache s k = Some a"
  shows "\<exists>h'. put s k v = Inr (s\<lparr>heap := h'\<rparr>) \<and>
           cache_inv (s\<lparr>heap := h'\<rparr>) (a # remove1 a as) \<and> same_data (set_value (heap s) a v) h'"
proof -
  let ?s0 = "s\<lparr>heap := set_value (heap s) a v\<rparr>"
  from assms have ain: "a \<in> set as" and c: "chain s as" by (auto simp: cache_inv_def)
  have "dll (heap ?s0) (head s) as (tail s) = dll (heap s) (head s) as (tail s)"
    by (intro dll_cong) (auto simp: set_value_def)
  with c have c0: "chain ?s0 as" by (simp add: chain_def)
  from move_to_head_chain[OF c0 ain] obtain h' where
    m: "move_to_head ?s0 a = Inr (s\<lparr>heap := h'\<rparr>)" and
    c': "chain (s\<lparr>heap := h'\<rparr>) (a # remove1 a as)" and sd: "same_data (set_value (heap s) a v) h'"
    by auto
  from sd have k: "key_of (s\<lparr>heap := h'\<rparr>) = key_of s"
    by (auto simp: same_data_def key_of_def set_value_def)
  from ain have "set (a # remove1 a as) = set as" using c by (auto simp: chain_def)
  from inv_reorder[OF assms(1) c' k this] m sd assms(2) show ?thesis by (auto simp: put_def)
qed

lemma alloc_inv:
  assumes "cache_inv s as"
  shows "cache_inv (snd (alloc s nd)) as" and "fresh s \<notin> set (head s # as @ [tail s])"
proof -
  from assms show n: "fresh s \<notin> set (head s # as @ [tail s])" by (auto simp: cache_inv_def)
  let ?s1 = "s\<lparr>heap := (heap s)(fresh s := nd), fresh := Suc (fresh s)\<rparr>"
  have "dll (heap ?s1) (head s) as (tail s) = dll (heap s) (head s) as (tail s)"
    using n by (intro dll_cong) auto
  moreover have k: "\<forall>a \<in> set as. key_of ?s1 a = key_of s a"
    using n by (auto simp: key_of_def)
  moreover from k have "distinct (map (key_of ?s1) as) = distinct (map (key_of s) as)"
    by (simp cong: map_cong)
  ultimately have "cache_inv ?s1 as"
    using assms by (auto simp: cache_inv_def chain_def less_Suc_eq)
  then show "cache_inv (snd (alloc s nd)) as" by (simp add: alloc_def)
qed

lemma evict_inv:
  assumes "cache_inv s as" and "capacity s \<le> int (length as)"
  shows "\<exists>h'. evict s = Inr (s\<lparr>heap := h', cache := (cache s)(key_of s (last as) := None)\<rparr>) \<and>
           cache_inv (s\<lparr>heap := h', cache := (cache s)(key_of s (last as) := None)\<rparr>) (butlast as) \<and>
           same_data (heap s) h'"
proof -
  from assms have ne: "as \<noteq> []" by (auto simp: cache_inv_def)
  from assms(1) have c: "chain s as" by (simp add: cache_inv_def)
  let ?l = "last as"
  from ne have lin: "?l \<in> set as" by simp
  from c ne have pv: "node_prev (heap s (tail s)) = Some ?l"
    by (auto simp: chain_def dest: dll_last)
  from remove_node_chain[OF c lin] obtain h' where
    r: "remove_node s ?l = Inr (s\<lparr>heap := h'\<rparr>)" and
    d: "dll h' (head s) (remove1 ?l as) (tail s)" and sd: "same_data (heap s) h'"
    by blast
  from c have dist: "distinct as" by (simp add: chain_def)
  with ne have rm: "remove1 ?l as = butlast as"
    by (metis append_butlast_last_id remove1_append remove1.simps(2) append_Nil2
        distinct_append distinct.simps(2) not_distinct_conv_prefix remove1.simps(1)
        in_set_butlastD)
  let ?k = "key_of s ?l"
  let ?s' = "s\<lparr>heap := h', cache := (cache s)(?k := None)\<rparr>"
  from sd have kk: "node_key (h' ?l) = ?k" by (simp add: same_data_def key_of_def)
  from inv_cache_key[OF assms(1) lin] have ck: "cache s ?k = Some ?l" .
  have ev: "evict s = Inr ?s'"
    by (simp add: evict_def pop_tail_def pv r kk ck)
  have ko: "key_of ?s' = key_of s" using sd by (auto simp: same_data_def key_of_def)
  have sb: "set (butlast as) = set as - {?l}"
    using dist ne by (metis rm set_remove1_eq)
  from c d rm have ch: "chain ?s' (butlast as)"
    by (auto simp: chain_def dest: in_set_butlastD distinct_butlast)
  from assms(1) have inj: "inj_on (key_of s) (set as)" by (simp add: cache_inv_def distinct_map)
  have "\<forall>k a. ((cache s)(?k := None)) k = Some a \<longleftrightarrow> a \<in> set (butlast as) \<and> key_of s a = k"
  proof (intro allI)
    fix k a
    show "((cache s)(?k := None)) k = Some a \<longleftrightarrow> a \<in> set (butlast as) \<and> key_of s a = k"
      using assms(1) inj lin unfolding sb by (auto simp: cache_inv_def dest: inj_onD)
  qed
  moreover have "distinct (map (key_of s) (butlast as))"
    using assms(1) by (simp add: cache_inv_def distinct_butlast map_butlast)
  ultimately have "cache_inv ?s' (butlast as)"
    using assms(1) ch ko by (auto simp: cache_inv_def dest: in_set_butlastD)
  with ev sd show ?thesis by blast
qed

lemma insert_inv:
  assumes "cache_inv s as" and "n \<notin> set (head s # as @ [tail s])" and "n < fresh s"
    and "key_of s n = k" and "cache s k = None" and "int (length as) < capacity s"
  shows "\<exists>h'. add_node s n = Inr (s\<lparr>heap := h'\<rparr>) \<and>
           cache_inv (s\<lparr>cache := (cache s)(k \<mapsto> n), heap := h'\<rparr>) (n # as) \<and>
           same_data (heap s) h'"
proof -
  from assms(1) have c: "chain s as" by (simp add: cache_inv_def)
  from add_node_chain[OF c assms(2)] obtain h' where
    a: "add_node s n = Inr (s\<lparr>heap := h'\<rparr>)" and
    d: "dll h' (head s) (n # as) (tail s)" and sd: "same_data (heap s) h'"
    by blast
  let ?s' = "s\<lparr>cache := (cache s)(k \<mapsto> n), heap := h'\<rparr>"
  have ko: "key_of ?s' = key_of s" using sd by (auto simp: same_data_def key_of_def)
  from c d assms(2) have ch: "chain ?s' (n # as)" by (auto simp: chain_def)
  from assms(5) inv_cache_key[OF assms(1)] have kn: "k \<notin> key_of s ` set as" by auto
  then have kn': "\<forall>a \<in> set as. key_of s a \<noteq> k" by auto
  have "\<forall>k' a. ((cache s)(k \<mapsto> n)) k' = Some a \<longleftrightarrow> a \<in> set (n # as) \<and> key_of s a = k'"
    using assms(1,2,4) kn' by (auto simp: cache_inv_def)
  moreover have "distinct (map (key_of s) (n # as))"
    using assms(1,4) kn by (auto simp: cache_inv_def)
  ultimately have "cache_inv ?s' (n # as)"
    using assms(1,3,6) ch ko by (auto simp: cache_inv_def)
  with a sd show ?thesis by blast
qed

lemma put_miss_room:
  assumes "cache_inv s as" and "cache s k = None" and "int (length as) < capacity s"
  shows "\<exists>s'. put s k v = Inr s' \<and> cache_inv s' (fresh s # as) \<and>
           cache s' = (cache s)(k \<mapsto> fresh s) \<and> capacity s' = capacity s \<and>
           same_data ((heap s)(fresh s := new_Node k v)) (heap s')"
proof -
  let ?n = "fresh s"
  let ?s1 = "s\<lparr>heap := (heap s)(?n := new_Node k v), fresh := Suc ?n\<rparr>"
  from alloc_inv(1)[OF assms(1), of "new_Node k v"] alloc_inv(2)[OF assms(1)]
  have i1: "cache_inv ?s1 as" and nn: "?n \<notin> set (head s # as @ [tail s])"
    by (simp_all add: alloc_def)
  have "key_of ?s1 ?n = k" by (simp add: key_of_def new_Node_def)
  from insert_inv[OF i1 _ _ this] nn assms(2,3) obtain h' where
    a: "add_node ?s1 ?n = Inr (?s1\<lparr>heap := h'\<rparr>)" and
    i: "cache_inv (?s1\<lparr>cache := (cache s)(k \<mapsto> ?n), heap := h'\<rparr>) (?n # as)" and
    sd: "same_data ((heap s)(?n := new_Node k v)) h'"
    by auto
  from inv_card[OF assms(1)] assms(3) have "\<not> capacity s \<le> int (card (dom (cache s)))"
    by simp
  then have "put s k v = Inr (?s1\<lparr>cache := (cache s)(k \<mapsto> ?n), heap := h'\<rparr>)"
    using assms(2) a by (simp add: put_def alloc_def)
  with i sd show ?thesis by auto
qed

lemma put_miss_full:
  assumes "cache_inv s as" and "cache s k = None" and "capacity s \<le> int (length as)"
  shows "\<exists>s'. put s k v = Inr s' \<and> cache_inv s' (fresh s # butlast as) \<and>
           cache s' = (cache s)(key_of s (last as) := None, k \<mapsto> fresh s) \<and>
           capacity s' = capacity s \<and>
           same_data ((heap s)(fresh s := new_Node k v)) (heap s')"
proof -
  let ?n = "fresh s"
  let ?s1 = "s\<lparr>heap := (heap s)(?n := new_Node k v), fresh := Suc ?n\<rparr>"
  from alloc_inv(1)[OF assms(1), of "new_Node k v"] alloc_inv(2)[OF assms(1)]
  have i1: "cache_inv ?s1 as" and nn: "?n \<notin> set (head s # as @ [tail s])"
    by (simp_all add: alloc_def)
  from assms(1,3) have ne: "as \<noteq> []" by (auto simp: cache_inv_def)
  with nn have "last as \<noteq> ?n" by (metis last_in_set list.set_intros(2) in_set_conv_decomp append_assoc append_Cons)
  then have kl: "key_of ?s1 (last as) = key_of s (last as)" by (simp add: key_of_def)
  let ?c = "(cache s)(key_of s (last as) := None)"
  from evict_inv[OF i1] assms(3) kl obtain h2 where
    e: "evict ?s1 = Inr (?s1\<lparr>heap := h2, cache := ?c\<rparr>)" and
    i2: "cache_inv (?s1\<lparr>heap := h2, cache := ?c\<rparr>) (butlast as)" and
    sd2: "same_data ((heap s)(?n := new_Node k v)) h2"
    by auto
  let ?s2 = "?s1\<lparr>heap := h2, cache := ?c\<rparr>"
  from sd2 have kn: "key_of ?s2 ?n = k" by (simp add: key_of_def new_Node_def same_data_def)
  from nn have nn2: "?n \<notin> set (head ?s2 # butlast as @ [tail ?s2])"
    by (auto dest: in_set_butlastD)
  from assms(2) have cn: "cache ?s2 k = None" by simp
  from assms(1,3) ne have len: "int (length (butlast as)) < capacity ?s2"
    by (auto simp: cache_inv_def)
  from insert_inv[OF i2 nn2 _ kn cn len] obtain h' where
    a: "add_node ?s2 ?n = Inr (?s2\<lparr>heap := h'\<rparr>)" and
    i: "cache_inv (?s2\<lparr>cache := ?c(k \<mapsto> ?n), heap := h'\<rparr>) (?n # butlast as)" and
    sd: "same_data h2 h'"
    by auto
  from inv_card[OF assms(1)] assms(3) have "capacity s \<le> int (card (dom (cache s)))"
    by simp
  then have "put s k v = Inr (?s2\<lparr>cache := ?c(k \<mapsto> ?n), heap := h'\<rparr>)"
    using assms(2) a e by (simp add: put_def alloc_def)
  moreover from sd2 sd have "same_data ((heap s)(?n := new_Node k v)) h'"
    by (rule same_data_trans)
  ultimately show ?thesis using i by auto
qed

subsection \<open>Touch times along the list\<close>

lemma sorted_wrt_remove1: "sorted_wrt P xs \<Longrightarrow> sorted_wrt P (remove1 a xs)"
  by (induction xs) (auto dest: notin_set_remove1)

lemma remove1_last: "distinct xs \<Longrightarrow> xs \<noteq> [] \<Longrightarrow> remove1 (last xs) xs = butlast xs"
  by (induction xs) auto

lemma run_inv_touch:
  assumes "run_inv r as" and "cache_inv s' (n # remove1 x as)"
    and "\<forall>b \<in> set (remove1 x as). key_of s' b = key_of (state r) b"
    and "key_of s' n = k"
  shows "run_inv \<lparr>state = s', clock = Suc (clock r), last_touch = (last_touch r)(k \<mapsto> clock r)\<rparr>
           (n # remove1 x as)"
proof -
  let ?r' = "\<lparr>state = s', clock = Suc (clock r), last_touch = (last_touch r)(k \<mapsto> clock r)\<rparr>"
  let ?bs = "remove1 x as"
  from assms(2) have dk: "distinct (map (key_of s') (n # ?bs))" by (simp add: cache_inv_def)
  with assms(4) have nk: "\<forall>b \<in> set ?bs. key_of s' b \<noteq> k" by (auto simp: image_iff)
  have sn: "stamp ?r' n = Some (clock r)" by (simp add: stamp_def assms(4))
  have sb: "\<forall>b \<in> set ?bs. stamp ?r' b = stamp r b"
    using nk assms(3) by (simp add: stamp_def)
  have sub: "set ?bs \<subseteq> set as" by (rule set_remove1_subset)
  from assms(1) have old: "\<forall>b \<in> set ?bs. \<exists>m. stamp r b = Some m \<and> m < clock r"
    using sub by (auto simp: run_inv_def)
  from assms(1) have "sorted_wrt (newer r) ?bs"
    by (simp add: run_inv_def sorted_wrt_remove1)
  then have "sorted_wrt (newer ?r') ?bs"
    by (rule sorted_wrt_mono_rel[rotated]) (simp add: newer_def sb)
  moreover have "\<forall>b \<in> set ?bs. newer ?r' n b"
    using old sb sn by (auto simp: newer_def)
  moreover have "\<forall>a \<in> set (n # ?bs). \<exists>m. stamp ?r' a = Some m \<and> m < clock ?r'"
    using old sb sn by (auto simp: less_Suc_eq)
  ultimately show ?thesis using assms(2) by (simp add: run_inv_def)
qed

lemma run_inv_idle:
  assumes "run_inv r as"
  shows "run_inv \<lparr>state = state r, clock = Suc (clock r), last_touch = last_touch r\<rparr> as"
proof -
  let ?r' = "\<lparr>state = state r, clock = Suc (clock r), last_touch = last_touch r\<rparr>"
  have "stamp ?r' = stamp r" by (auto simp: stamp_def)
  then have "newer ?r' = newer r" by (auto simp: newer_def fun_eq_iff)
  with \<open>stamp ?r' = stamp r\<close> assms show ?thesis by (auto simp: run_inv_def less_Suc_eq)
qed

subsection \<open>Runs\<close>

lemma step_get_inv:
  assumes "run_inv r as"
  shows "\<exists>r' as'. step r (Get k) = Inr r' \<and> run_inv r' as' \<and> capacity (state r') = capacity (state r)"
proof (cases "cache (state r) k")
  case None
  then have "step r (Get k) = Inr \<lparr>state = state r, clock = Suc (clock r), last_touch = last_touch r\<rparr>"
    by (simp add: step_def get_miss)
  with run_inv_idle[OF assms] show ?thesis by auto
next
  case (Some a)
  from assms have ci: "cache_inv (state r) as" by (simp add: run_inv_def)
  from get_hit[OF ci Some] obtain h' where
    g: "get (state r) k = Inr (node_value (heap (state r) a), (state r)\<lparr>heap := h'\<rparr>)" and
    i: "cache_inv ((state r)\<lparr>heap := h'\<rparr>) (a # remove1 a as)" and
    sd: "same_data (heap (state r)) h'"
    by blast
  let ?s' = "(state r)\<lparr>heap := h'\<rparr>"
  from sd have ko: "key_of ?s' = key_of (state r)" by (rule same_data_key_of)
  from ci Some have "key_of (state r) a = k" by (simp add: cache_inv_def)
  with ko have "key_of ?s' a = k" by simp
  from run_inv_touch[OF assms i _ this] ko
  have "run_inv \<lparr>state = ?s', clock = Suc (clock r), last_touch = (last_touch r)(k \<mapsto> clock r)\<rparr>
          (a # remove1 a as)" by simp
  moreover have "step r (Get k) =
      Inr \<lparr>state = ?s', clock = Suc (clock r), last_touch = (last_touch r)(k \<mapsto> clock r)\<rparr>"
    using g Some by (simp add: step_def)
  ultimately show ?thesis by auto
qed

lemma step_put_inv:
  assumes "run_inv r as"
  shows "\<exists>r' as'. step r (Put k v) = Inr r' \<and> run_inv r' as' \<and> capacity (state r') = capacity (state r)"
proof -
  let ?s = "state r"
  from assms have ci: "cache_inv ?s as" by (simp add: run_inv_def)
  have "\<exists>s' n x. put ?s k v = Inr s' \<and> cache_inv s' (n # remove1 x as) \<and>
          (\<forall>b \<in> set (remove1 x as). key_of s' b = key_of ?s b) \<and> key_of s' n = k \<and>
          capacity s' = capacity ?s"
  proof (cases "cache ?s k")
    case (Some a)
    from put_hit[OF ci Some] obtain h' where
      p: "put ?s k v = Inr (?s\<lparr>heap := h'\<rparr>)" and
      i: "cache_inv (?s\<lparr>heap := h'\<rparr>) (a # remove1 a as)" and
      sd: "same_data (set_value (heap ?s) a v) h'"
      by blast
    from sd have ko: "key_of (?s\<lparr>heap := h'\<rparr>) = key_of ?s"
      by (auto simp: same_data_def key_of_def set_value_def)
    from ci Some have "key_of ?s a = k" by (simp add: cache_inv_def)
    with p i ko show ?thesis by (intro exI[of _ "?s\<lparr>heap := h'\<rparr>"] exI[of _ a]) simp
  next
    case None
    let ?n = "fresh ?s"
    from ci have fr: "\<forall>b \<in> set as. b \<noteq> ?n" by (auto simp: cache_inv_def)
    then have idem: "remove1 ?n as = as" by (auto intro: remove1_idem)
    have keys: "key_of s' ?n = k \<and> (\<forall>b \<in> set as. key_of s' b = key_of ?s b)"
      if "same_data ((heap ?s)(?n := new_Node k v)) (heap s')" for s'
      using that fr by (auto simp: same_data_def key_of_def new_Node_def)
    show ?thesis
    proof (cases "int (length as) < capacity ?s")
      case True
      from put_miss_room[OF ci None True, of v] obtain s' where
        "put ?s k v = Inr s'" "cache_inv s' (?n # as)" "capacity s' = capacity ?s"
        "same_data ((heap ?s)(?n := new_Node k v)) (heap s')"
        by blast
      with keys[of s'] idem show ?thesis
        by (intro exI[of _ s'] exI[of _ ?n]) simp
    next
      case False
      then have full: "capacity ?s \<le> int (length as)" by simp
      with ci have ne: "as \<noteq> []" and dist: "distinct as" by (auto simp: cache_inv_def chain_def)
      from put_miss_full[OF ci None full, of v] obtain s' where
        "put ?s k v = Inr s'" "cache_inv s' (?n # butlast as)" "capacity s' = capacity ?s"
        "same_data ((heap ?s)(?n := new_Node k v)) (heap s')"
        by blast
      with keys[of s'] remove1_last[OF dist ne] show ?thesis
        by (intro exI[of _ s'] exI[of _ ?n] exI[of _ "last as"]) (auto dest: in_set_butlastD)
    qed
  qed
  then obtain s' n x where
    p: "put ?s k v = Inr s'" and i: "cache_inv s' (n # remove1 x as)" and
    ks: "\<forall>b \<in> set (remove1 x as). key_of s' b = key_of ?s b" and kn: "key_of s' n = k" and
    cap: "capacity s' = capacity ?s"
    by blast
  from p have "step r (Put k v) =
      Inr \<lparr>state = s', clock = Suc (clock r), last_touch = (last_touch r)(k \<mapsto> clock r)\<rparr>"
    by (simp add: step_def)
  with run_inv_touch[OF assms i ks kn] cap show ?thesis by auto
qed

lemma step_inv:
  "run_inv r as \<Longrightarrow>
   \<exists>r' as'. step r x = Inr r' \<and> run_inv r' as' \<and> capacity (state r') = capacity (state r)"
  by (cases x) (simp_all only: step_get_inv step_put_inv)

lemma run_total_inv:
  "run_inv r as \<Longrightarrow>
   \<exists>r' as'. run r ops = Inr r' \<and> run_inv r' as' \<and> capacity (state r') = capacity (state r)"
proof (induction ops arbitrary: r as)
  case Nil
  then show ?case by auto
next
  case (Cons x ops)
  from step_inv[OF Cons.prems, of x] obtain r1 as1 where
    s: "step r x = Inr r1" and i: "run_inv r1 as1" and c: "capacity (state r1) = capacity (state r)"
    by blast
  from Cons.IH[OF i] s c show ?case by auto
qed

lemma reach_total_inv:
  assumes "0 < c"
  shows "\<exists>r as. reach c ops = Inr r \<and> run_inv r as \<and> capacity (state r) = c"
proof -
  from init_inv[OF assms] obtain s where
    i: "init c = Inr s" and ci: "cache_inv s []" and cap: "capacity s = c"
    by blast
  let ?r0 = "\<lparr>state = s, clock = 0, last_touch = Map.empty\<rparr>"
  from ci have "run_inv ?r0 []" by (simp add: run_inv_def)
  from run_total_inv[OF this, of ops] i cap show ?thesis by (auto simp: reach_def)
qed

lemma reach_positive: "reach c ops = Inr r \<Longrightarrow> 0 < c"
  by (auto simp: reach_def init_def split: if_splits)

lemma reach_inv:
  assumes "reach c ops = Inr r"
  shows "\<exists>as. run_inv r as \<and> capacity (state r) = c"
  using reach_total_inv[OF reach_positive[OF assms], of ops] assms by auto

subsection \<open>The entries after a key is promoted\<close>

lemma inv_key_unique:
  assumes "cache_inv s as" and "cache s k = Some a" and "b \<in> set as"
  shows "key_of s b = k \<longleftrightarrow> b = a"
proof
  assume "key_of s b = k"
  with inv_cache_key[OF assms(1,3)] assms(2) show "b = a" by simp
next
  assume "b = a"
  with assms(1,2) show "key_of s b = k" by (simp add: cache_inv_def)
qed

lemma promote_entries:
  assumes "cache_inv s as" and "cache s k = Some a" and "cache_inv s' (a # remove1 a as)"
    and "same_data (set_value (heap s) a v) (heap s')"
  shows "\<exists>es. entries s = Some es \<and> entries s' = Some ((k, v) # filter (\<lambda>e. fst e \<noteq> k) es) \<and>
           Suc (length (filter (\<lambda>e. fst e \<noteq> k) es)) = length es"
proof -
  let ?f = "\<lambda>b. (node_key (heap s b), node_value (heap s b))"
  let ?f' = "\<lambda>b. (node_key (heap s' b), node_value (heap s' b))"
  from assms(1,2) have ain: "a \<in> set as" and ka: "key_of s a = k" and dist: "distinct as"
    by (auto simp: cache_inv_def chain_def)
  have "filter (\<lambda>e. fst e \<noteq> k) (map ?f as) = map ?f (filter (\<lambda>b. key_of s b \<noteq> k) as)"
    by (simp add: filter_map o_def key_of_def)
  also have "filter (\<lambda>b. key_of s b \<noteq> k) as = filter (\<lambda>b. b \<noteq> a) as"
    using inv_key_unique[OF assms(1,2)] by (intro filter_cong) auto
  also have "\<dots> = remove1 a as"
    using dist by (simp add: distinct_remove1_removeAll removeAll_filter_not_eq) metis
  also have "map ?f (remove1 a as) = map ?f' (remove1 a as)"
    using assms(4) dist by (intro map_cong) (auto simp: same_data_def set_value_def)
  finally have rest: "filter (\<lambda>e. fst e \<noteq> k) (map ?f as) = map ?f' (remove1 a as)" .
  from assms(4) ka have "?f' a = (k, v)" by (simp add: same_data_def set_value_def key_of_def)
  with rest have "map ?f' (a # remove1 a as) = (k, v) # filter (\<lambda>e. fst e \<noteq> k) (map ?f as)"
    by simp
  moreover from rest have "length (filter (\<lambda>e. fst e \<noteq> k) (map ?f as)) = length (remove1 a as)"
    by (simp only: length_map)
  moreover from ain have "0 < length as" by (rule length_pos_if_in_set)
  ultimately have "Suc (length (filter (\<lambda>e. fst e \<noteq> k) (map ?f as))) = length (map ?f as)"
    using ain by (simp add: length_remove1)
  moreover note \<open>map ?f' (a # remove1 a as) = (k, v) # filter (\<lambda>e. fst e \<noteq> k) (map ?f as)\<close>
  ultimately show ?thesis using inv_entries[OF assms(1)] inv_entries[OF assms(3)] by simp
qed

lemma promote_stored:
  assumes "cache_inv s as" and "cache s k = Some a" and "cache s' = cache s"
    and "same_data (set_value (heap s) a v) (heap s')"
  shows "stored s' = (stored s)(k \<mapsto> v)"
proof
  fix k'
  show "stored s' k' = ((stored s)(k \<mapsto> v)) k'"
  proof (cases "cache s k'")
    case None
    with assms(2,3) show ?thesis by (auto simp: stored_def)
  next
    case (Some b)
    with assms(1) have "b \<in> set as" "key_of s b = k'" by (auto simp: cache_inv_def)
    with inv_key_unique[OF assms(1,2), of b] have "b = a \<longleftrightarrow> k' = k" by auto
    with Some assms(2,3,4) show ?thesis
      by (auto simp: stored_def same_data_def set_value_def)
  qed
qed

lemma same_data_own_value:
  "same_data h h' \<Longrightarrow> same_data (set_value h a (node_value (h a))) h'"
  by (simp add: same_data_def set_value_def)

lemma put_stores:
  assumes "cache_inv s as"
  shows "\<exists>s1 as1 a. put s k v = Inr s1 \<and> cache_inv s1 as1 \<and> cache s1 k = Some a \<and>
           node_value (heap s1 a) = v"
proof (cases "cache s k")
  case (Some a)
  from put_hit[OF assms Some, of v] obtain h' where
    "put s k v = Inr (s\<lparr>heap := h'\<rparr>)" "cache_inv (s\<lparr>heap := h'\<rparr>) (a # remove1 a as)"
    "same_data (set_value (heap s) a v) h'"
    by blast
  with Some show ?thesis
    by (intro exI[of _ "s\<lparr>heap := h'\<rparr>"] exI[of _ "a # remove1 a as"] exI[of _ a])
       (simp add: same_data_def set_value_def)
next
  case None
  have "\<exists>s1 as1. put s k v = Inr s1 \<and> cache_inv s1 as1 \<and> cache s1 k = Some (fresh s) \<and>
          same_data ((heap s)(fresh s := new_Node k v)) (heap s1)"
  proof (cases "int (length as) < capacity s")
    case True
    from put_miss_room[OF assms None True, of v] show ?thesis by auto
  next
    case False
    then have "capacity s \<le> int (length as)" by simp
    from put_miss_full[OF assms None this, of v] show ?thesis by auto
  qed
  then show ?thesis by (auto simp: same_data_def new_Node_def)
qed



subsection \<open>The cache holds the most recently touched keys\<close>


















section \<open>The specification's claims\<close>

text \<open>
  Claim C1. In every state reached from the constructor by \<^verbatim>\<open>get\<close> and
  \<^verbatim>\<open>put\<close> calls, a \<^verbatim>\<open>put\<close> of an absent key while the number of keys is
  at least the capacity succeeds and removes exactly one key \<open>e\<close> from the dictionary,
  and the last touch of \<open>e\<close> (by a \<^verbatim>\<open>get\<close> that found it or by a
  \<^verbatim>\<open>put\<close>) is strictly older than the last touch of every other key present.
\<close>

theorem evicts_least_recently_touched:
  assumes "reach c ops = Inr r" and "cache (state r) k = None"
    and "capacity (state r) \<le> int (card (dom (cache (state r))))"
  shows "\<exists>s' e te. put (state r) k v = Inr s' \<and> e \<in> dom (cache (state r)) \<and>
           dom (cache s') = insert k (dom (cache (state r)) - {e}) \<and>
           last_touch r e = Some te \<and>
           (\<forall>k' \<in> dom (cache (state r)) - {e}. \<exists>t'. last_touch r k' = Some t' \<and> te < t')"
proof -
  let ?s = "state r"
  from reach_inv[OF assms(1)] obtain as where ri: "run_inv r as" by blast
  then have i: "cache_inv ?s as" by (simp add: run_inv_def)
  from assms(3) inv_card[OF i] have full: "capacity ?s \<le> int (length as)" by simp
  with i have ne: "as \<noteq> []" by (auto simp: cache_inv_def)
  let ?l = "last as" and ?e = "key_of ?s (last as)"
  from ne have lin: "?l \<in> set as" by simp
  from put_miss_full[OF i assms(2) full, of v] obtain s' where
    p: "put ?s k v = Inr s'" and c': "cache s' = (cache ?s)(?e := None, k \<mapsto> fresh ?s)"
    by blast
  from inv_cache_key[OF i lin] have ce: "cache ?s ?e = Some ?l" .
  then have ein: "?e \<in> dom (cache ?s)" by auto
  from c' have d': "dom (cache s') = insert k (dom (cache ?s) - {?e})" by auto
  from ri lin obtain te where te: "stamp r ?l = Some te" by (auto simp: run_inv_def)
  then have lt: "last_touch r ?e = Some te" by (simp add: stamp_def)
  from ri have "sorted_wrt (newer r) (butlast as @ [?l])" using ne by (simp add: run_inv_def)
  then have nw: "\<forall>b \<in> set (butlast as). newer r b ?l" by (simp add: sorted_wrt_append)
  have "\<exists>t'. last_touch r k' = Some t' \<and> te < t'" if k': "k' \<in> dom (cache ?s) - {?e}" for k'
  proof -
    from k' inv_dom[OF i] obtain b where b: "b \<in> set as" "key_of ?s b = k'" by auto
    with k' have "b \<noteq> ?l" by auto
    with b ne have "b \<in> set (butlast as)"
      by (metis append_butlast_last_id set_ConsD in_set_conv_decomp rotate1.simps(2) set_rotate1)
    with nw have "newer r b ?l" by simp
    with te b show ?thesis by (auto simp: newer_def stamp_def)
  qed
  with p ein d' lt show ?thesis by blast
qed

text \<open>
  The source's fifth test: capacity 3, keys 1, 2, 3 inserted, then \<^verbatim>\<open>get(1)\<close>;
  the \<^verbatim>\<open>put(4, 4)\<close> that follows removes key 2.
\<close>

theorem evicts_least_recently_touched_witness:
  "\<exists>r. reach 3 [Put 1 1, Put 2 2, Put 3 3, Get 1] = Inr r \<and> cache (state r) 4 = None \<and>
       capacity (state r) \<le> int (card (dom (cache (state r)))) \<and>
       dom (cache (state r)) = {1, 2, 3} \<and>
       last_touch r 1 = Some 3 \<and> last_touch r 2 = Some 1 \<and> last_touch r 3 = Some 2 \<and>
       (\<exists>s'. put (state r) 4 4 = Inr s' \<and> dom (cache s') = {1, 3, 4}) \<and>
       (\<exists>s' e te. put (state r) 4 4 = Inr s' \<and> e \<in> dom (cache (state r)) \<and>
           dom (cache s') = insert 4 (dom (cache (state r)) - {e}) \<and>
           last_touch r e = Some te \<and>
           (\<forall>k' \<in> dom (cache (state r)) - {e}. \<exists>t'. last_touch r k' = Some t' \<and> te < t'))"
proof -
  define r where "r = projr (reach 3 [Put 1 1, Put 2 2, Put 3 3, Get 1])"
  have R: "reach 3 [Put 1 1, Put 2 2, Put 3 3, Get 1] = Inr r"
    unfolding r_def by (simp add: run_eval)
  have A: "cache (state r) 4 = None"
    unfolding r_def by (simp add: run_eval)
  have D: "dom (cache (state r)) = {1, 2, 3}"
    unfolding r_def by (auto simp add: run_eval)
  have C: "capacity (state r) = 3"
    unfolding r_def by (simp add: run_eval)
  from C D have B: "capacity (state r) \<le> int (card (dom (cache (state r))))" by simp
  have T: "last_touch r 1 = Some 3 \<and> last_touch r 2 = Some 1 \<and> last_touch r 3 = Some 2"
    unfolding r_def by (simp add: run_eval)
  have E: "\<exists>s'. put (state r) 4 4 = Inr s' \<and> dom (cache s') = {1, 3, 4}"
    unfolding r_def by (auto simp add: run_eval)
  from evicts_least_recently_touched[OF R A B, of 4] R A B D T E show ?thesis by blast
qed

text \<open>
  Claim C2. For a positive capacity and any list of calls, the run succeeds, and in the
  state after it the number of data entries in the recency list equals the number of
  keys in the dictionary, which is at most the capacity. The list of calls is arbitrary,
  so this holds between any two calls of a longer run.
\<close>

theorem size_at_most_capacity:
  assumes "0 < c"
  shows "\<exists>r es. reach c ops = Inr r \<and> capacity (state r) = c \<and> entries (state r) = Some es \<and>
           length es = card (dom (cache (state r))) \<and> int (card (dom (cache (state r)))) \<le> c"
proof -
  from reach_total_inv[OF assms, of ops] obtain r as where
    r: "reach c ops = Inr r" and i: "cache_inv (state r) as" and cap: "capacity (state r) = c"
    by (auto simp: run_inv_def)
  from i cap have "int (length as) \<le> c" by (simp add: cache_inv_def)
  with r cap inv_entries[OF i] inv_card[OF i] show ?thesis by simp
qed

theorem size_at_most_capacity_witness:
  "0 < (2::int) \<and>
   (\<exists>r es. reach 2 [Put 1 1, Put 2 2, Get 1, Put 3 3, Get 2, Put 4 4] = Inr r \<and>
      capacity (state r) = 2 \<and> entries (state r) = Some es \<and>
      length es = card (dom (cache (state r))) \<and> int (card (dom (cache (state r)))) \<le> 2)"
  using size_at_most_capacity[of 2 "[Put 1 1, Put 2 2, Get 1, Put 3 3, Get 2, Put 4 4]"]
  by simp

text \<open>
  Claim C3. In every reachable state, for every key and value, \<^verbatim>\<open>put(k, v)\<close>
  succeeds and the \<^verbatim>\<open>get(k)\<close> that follows it returns \<open>v\<close>.
\<close>

theorem put_then_get_returns_value:
  assumes "reach c ops = Inr r"
  shows "\<exists>s1 s2. put (state r) k v = Inr s1 \<and> get s1 k = Inr (v, s2)"
proof -
  from reach_inv[OF assms] obtain as where "cache_inv (state r) as"
    by (auto simp: run_inv_def)
  from put_stores[OF this, of k v] obtain s1 as1 a where
    p: "put (state r) k v = Inr s1" and i: "cache_inv s1 as1" and c: "cache s1 k = Some a" and
    nv: "node_value (heap s1 a) = v"
    by blast
  from get_hit[OF i c] nv p show ?thesis by auto
qed

text \<open>The source's second test: key 1 is overwritten with 10 and read back.\<close>

theorem put_then_get_returns_value_witness:
  "\<exists>r. reach 2 [Put 1 1, Put 2 2] = Inr r \<and>
       (\<exists>s1 s2. put (state r) 1 10 = Inr s1 \<and> get s1 1 = Inr (10, s2))"
proof -
  define r where "r = projr (reach 2 [Put 1 1, Put 2 2])"
  have R: "reach 2 [Put 1 1, Put 2 2] = Inr r"
    unfolding r_def by (simp add: run_eval)
  from put_then_get_returns_value[OF R, of 1 10] R show ?thesis by blast
qed

text \<open>
  Claim C4. In every reachable state that holds key \<open>k\<close> in node \<open>a\<close>,
  \<^verbatim>\<open>put(k, v)\<close> succeeds, leaves the dictionary as it was (no mapping added or
  removed, so nothing is evicted, whatever the fill), writes \<open>v\<close> into the same node
  \<open>a\<close>, changes no other stored value, and moves the entry of \<open>k\<close> to the front of
  the recency list, the other entries keeping their order; the list keeps its length.
\<close>

theorem put_present_updates_in_place:
  assumes "reach c ops = Inr r" and "cache (state r) k = Some a"
  shows "\<exists>s' es. put (state r) k v = Inr s' \<and> cache s' = cache (state r) \<and>
           capacity s' = capacity (state r) \<and> node_value (heap s' a) = v \<and>
           stored s' = (stored (state r))(k \<mapsto> v) \<and>
           entries (state r) = Some es \<and>
           entries s' = Some ((k, v) # filter (\<lambda>e. fst e \<noteq> k) es) \<and>
           length ((k, v) # filter (\<lambda>e. fst e \<noteq> k) es) = length es"
proof -
  let ?s = "state r"
  from reach_inv[OF assms(1)] obtain as where i: "cache_inv ?s as"
    by (auto simp: run_inv_def)
  from put_hit[OF i assms(2), of v] obtain h' where
    p: "put ?s k v = Inr (?s\<lparr>heap := h'\<rparr>)" and
    i': "cache_inv (?s\<lparr>heap := h'\<rparr>) (a # remove1 a as)" and
    sd: "same_data (set_value (heap ?s) a v) h'"
    by blast
  let ?s' = "?s\<lparr>heap := h'\<rparr>"
  from sd have sd': "same_data (set_value (heap ?s) a v) (heap ?s')" by simp
  from promote_entries[OF i assms(2) i' sd'] obtain es where
    e: "entries ?s = Some es" and e': "entries ?s' = Some ((k, v) # filter (\<lambda>e. fst e \<noteq> k) es)"
    and len: "length ((k, v) # filter (\<lambda>e. fst e \<noteq> k) es) = length es"
    by auto
  have st: "stored ?s' = (stored ?s)(k \<mapsto> v)"
    by (rule promote_stored[OF i assms(2) _ sd']) simp
  from sd have nv: "node_value (heap ?s' a) = v" by (simp add: same_data_def set_value_def)
  from p e e' st nv len show ?thesis
    by (intro exI[of _ ?s'] exI[of _ es]) simp
qed

theorem put_present_updates_in_place_witness:
  "\<exists>r. reach 2 [Put 1 1, Put 2 2] = Inr r \<and> cache (state r) 1 = Some 2 \<and>
       entries (state r) = Some [(2, 2), (1, 1)] \<and>
       (\<exists>s'. put (state r) 1 10 = Inr s' \<and> cache s' = cache (state r) \<and>
          capacity s' = capacity (state r) \<and> node_value (heap s' 2) = 10 \<and>
          stored s' = (stored (state r))(1 \<mapsto> 10) \<and>
          entries s' = Some [(1, 10), (2, 2)])"
proof -
  define r where "r = projr (reach 2 [Put 1 1, Put 2 2])"
  have R: "reach 2 [Put 1 1, Put 2 2] = Inr r"
    unfolding r_def by (simp add: run_eval)
  have A: "cache (state r) 1 = Some 2"
    unfolding r_def by (simp add: run_eval)
  have E: "entries (state r) = Some [(2, 2), (1, 1)]"
    unfolding r_def by (simp add: run_eval entries_def data_nodes_def eval_nat_numeral)
  from put_present_updates_in_place[OF R A, of 10] E
  have "\<exists>s'. put (state r) 1 10 = Inr s' \<and> cache s' = cache (state r) \<and>
          capacity s' = capacity (state r) \<and> node_value (heap s' 2) = 10 \<and>
          stored s' = (stored (state r))(1 \<mapsto> 10) \<and>
          entries s' = Some [(1, 10), (2, 2)]"
    by auto
  with R A E show ?thesis by blast
qed

text \<open>
  Claim C5. In every reachable state that holds key \<open>k\<close>, \<^verbatim>\<open>get(k)\<close> returns
  the stored value and changes the store only: every node keeps its key and value, the
  dictionary and all stored values are as before, and in the recency list the entry of
  \<open>k\<close> moves to the front while the other entries keep their order.
\<close>

theorem get_present_only_reorders:
  assumes "reach c ops = Inr r" and "cache (state r) k = Some a"
  shows "\<exists>v s' es. get (state r) k = Inr (v, s') \<and> stored (state r) k = Some v \<and>
           s' = (state r)\<lparr>heap := heap s'\<rparr> \<and>
           (\<forall>b. node_key (heap s' b) = node_key (heap (state r) b) \<and>
                node_value (heap s' b) = node_value (heap (state r) b)) \<and>
           dom (cache s') = dom (cache (state r)) \<and> stored s' = stored (state r) \<and>
           entries (state r) = Some es \<and>
           entries s' = Some ((k, v) # filter (\<lambda>e. fst e \<noteq> k) es)"
proof -
  let ?s = "state r"
  let ?v = "node_value (heap ?s a)"
  from reach_inv[OF assms(1)] obtain as where i: "cache_inv ?s as"
    by (auto simp: run_inv_def)
  from get_hit[OF i assms(2)] obtain h' where
    g: "get ?s k = Inr (?v, ?s\<lparr>heap := h'\<rparr>)" and
    i': "cache_inv (?s\<lparr>heap := h'\<rparr>) (a # remove1 a as)" and
    sd: "same_data (heap ?s) h'"
    by blast
  let ?s' = "?s\<lparr>heap := h'\<rparr>"
  from sd have sd': "same_data (set_value (heap ?s) a ?v) (heap ?s')"
    by (simp add: same_data_own_value)
  from promote_entries[OF i assms(2) i' sd'] obtain es where
    e: "entries ?s = Some es" and e': "entries ?s' = Some ((k, ?v) # filter (\<lambda>e. fst e \<noteq> k) es)"
    by blast
  have sv: "stored ?s k = Some ?v" using assms(2) by (simp add: stored_def)
  have "stored ?s' = (stored ?s)(k \<mapsto> ?v)"
    by (rule promote_stored[OF i assms(2) _ sd']) simp
  with sv have st: "stored ?s' = stored ?s" by (simp add: map_upd_triv)
  from sd have "\<forall>b. node_key (heap ?s' b) = node_key (heap ?s b) \<and>
      node_value (heap ?s' b) = node_value (heap ?s b)" by (simp add: same_data_def)
  with g e e' st sv show ?thesis
    by (intro exI[of _ ?v] exI[of _ ?s'] exI[of _ es]) simp
qed

theorem get_present_only_reorders_witness:
  "\<exists>r. reach 2 [Put 1 1, Put 2 2] = Inr r \<and> cache (state r) 1 = Some 2 \<and>
       entries (state r) = Some [(2, 2), (1, 1)] \<and>
       (\<exists>s'. get (state r) 1 = Inr (1, s') \<and> stored (state r) 1 = Some 1 \<and>
          dom (cache s') = dom (cache (state r)) \<and> stored s' = stored (state r) \<and>
          entries s' = Some [(1, 1), (2, 2)])"
proof -
  define r where "r = projr (reach 2 [Put 1 1, Put 2 2])"
  have R: "reach 2 [Put 1 1, Put 2 2] = Inr r"
    unfolding r_def by (simp add: run_eval)
  have A: "cache (state r) 1 = Some 2"
    unfolding r_def by (simp add: run_eval)
  have E: "entries (state r) = Some [(2, 2), (1, 1)]"
    unfolding r_def by (simp add: run_eval entries_def data_nodes_def eval_nat_numeral)
  have S: "stored (state r) 1 = Some 1"
    unfolding r_def by (simp add: run_eval stored_def)
  from get_present_only_reorders[OF R A] E S
  have "\<exists>s'. get (state r) 1 = Inr (1, s') \<and> stored (state r) 1 = Some 1 \<and>
          dom (cache s') = dom (cache (state r)) \<and> stored s' = stored (state r) \<and>
          entries s' = Some [(1, 1), (2, 2)]"
    by auto
  with R A E show ?thesis by blast
qed

text \<open>
  Claim C6. In every reachable state, a \<^verbatim>\<open>get\<close> of any key succeeds and leaves
  the set of keys as it was; a \<^verbatim>\<open>put\<close> succeeds, and it removes exactly one key
  when its key is absent and the number of keys is at least the capacity, and removes
  no key otherwise.
\<close>

theorem eviction_only_on_overflowing_put:
  assumes "reach c ops = Inr r"
  shows "(\<exists>x s'. get (state r) k' = Inr (x, s') \<and> dom (cache s') = dom (cache (state r))) \<and>
         (\<exists>s'. put (state r) k v = Inr s' \<and>
            (if cache (state r) k = None \<and> capacity (state r) \<le> int (card (dom (cache (state r))))
             then card (dom (cache (state r)) - dom (cache s')) = 1
             else dom (cache (state r)) \<subseteq> dom (cache s')))"
proof
  let ?s = "state r"
  from reach_inv[OF assms(1)] obtain as where i: "cache_inv ?s as"
    by (auto simp: run_inv_def)
  show "\<exists>x s'. get ?s k' = Inr (x, s') \<and> dom (cache s') = dom (cache ?s)"
  proof (cases "cache ?s k'")
    case None
    then show ?thesis by (simp add: get_miss)
  next
    case (Some a)
    from get_hit[OF i Some] show ?thesis by auto
  qed
  show "\<exists>s'. put ?s k v = Inr s' \<and>
            (if cache ?s k = None \<and> capacity ?s \<le> int (card (dom (cache ?s)))
             then card (dom (cache ?s) - dom (cache s')) = 1
             else dom (cache ?s) \<subseteq> dom (cache s'))"
  proof (cases "cache ?s k")
    case (Some a)
    from put_hit[OF i Some, of v] Some show ?thesis by auto
  next
    case None
    show ?thesis
    proof (cases "int (length as) < capacity ?s")
      case True
      from put_miss_room[OF i None True, of v] obtain s' where
        "put ?s k v = Inr s'" "cache s' = (cache ?s)(k \<mapsto> fresh ?s)" by blast
      with True inv_card[OF i] show ?thesis by auto
    next
      case False
      then have full: "capacity ?s \<le> int (length as)" by simp
      with i have ne: "as \<noteq> []" by (auto simp: cache_inv_def)
      let ?e = "key_of ?s (last as)"
      from put_miss_full[OF i None full, of v] obtain s' where
        p: "put ?s k v = Inr s'" and c': "cache s' = (cache ?s)(?e := None, k \<mapsto> fresh ?s)"
        by blast
      from inv_cache_key[OF i] ne have "cache ?s ?e = Some (last as)" by simp
      with None c' have "dom (cache ?s) - dom (cache s') = {?e}" by auto
      with p None full inv_card[OF i] show ?thesis by auto
    qed
  qed
qed

text \<open>The source's third test: capacity 1, key 1 held, then \<^verbatim>\<open>put(2, 2)\<close>.\<close>

theorem eviction_only_on_overflowing_put_witness:
  "\<exists>r. reach 1 [Put 1 1] = Inr r \<and> cache (state r) 2 = None \<and>
       capacity (state r) \<le> int (card (dom (cache (state r)))) \<and>
       (\<exists>x s'. get (state r) 1 = Inr (x, s') \<and> dom (cache s') = dom (cache (state r))) \<and>
       (\<exists>s'. put (state r) 2 2 = Inr s' \<and> card (dom (cache (state r)) - dom (cache s')) = 1)"
proof -
  define r where "r = projr (reach 1 [Put 1 1])"
  have R: "reach 1 [Put 1 1] = Inr r"
    unfolding r_def by (simp add: run_eval)
  have A: "cache (state r) 2 = None"
    unfolding r_def by (simp add: run_eval)
  have B: "capacity (state r) \<le> int (card (dom (cache (state r))))"
    unfolding r_def by (simp add: run_eval)
  from eviction_only_on_overflowing_put[OF R, of 1 2 2] A B
  have "(\<exists>x s'. get (state r) 1 = Inr (x, s') \<and> dom (cache s') = dom (cache (state r)))"
    and "(\<exists>s'. put (state r) 2 2 = Inr s' \<and> card (dom (cache (state r)) - dom (cache s')) = 1)"
    by simp_all
  with R A B show ?thesis by blast
qed

text \<open>
  Claim C7. The constructor fails with \<^verbatim>\<open>ValueError\<close>, returning no state, for
  every capacity \<open>c \<le> 0\<close>; for every positive capacity it returns a cache of that
  capacity with an empty dictionary, two distinct sentinels linked to each other and no
  data entry between them.
\<close>

theorem construction:
  "(c \<le> 0 \<longrightarrow> init c = Inl ValueError) \<and>
   (0 < c \<longrightarrow> (\<exists>s. init c = Inr s \<and> capacity s = c \<and> cache s = Map.empty \<and>
        head s \<noteq> tail s \<and> node_next (heap s (head s)) = Some (tail s) \<and>
        node_prev (heap s (tail s)) = Some (head s) \<and> entries s = Some []))"
proof (intro conjI impI)
  assume "c \<le> 0"
  then show "init c = Inl ValueError" by (simp add: init_def)
next
  assume "0 < c"
  from init_inv[OF this] obtain s where
    i: "init c = Inr s" and ci: "cache_inv s []" and rest: "capacity s = c" "cache s = Map.empty"
    by blast
  from ci have "head s \<noteq> tail s" "node_next (heap s (head s)) = Some (tail s)"
    "node_prev (heap s (tail s)) = Some (head s)"
    by (simp_all add: cache_inv_def chain_def)
  with i rest inv_entries[OF ci] show "\<exists>s. init c = Inr s \<and> capacity s = c \<and> cache s = Map.empty \<and>
        head s \<noteq> tail s \<and> node_next (heap s (head s)) = Some (tail s) \<and>
        node_prev (heap s (tail s)) = Some (head s) \<and> entries s = Some []"
    by auto
qed

theorem construction_witness:
  "init 0 = Inl ValueError \<and> init (- 1) = Inl ValueError \<and>
   (\<exists>s. init 1 = Inr s \<and> capacity s = 1 \<and> cache s = Map.empty \<and>
        head s \<noteq> tail s \<and> node_next (heap s (head s)) = Some (tail s) \<and>
        node_prev (heap s (tail s)) = Some (head s) \<and> entries s = Some [])"
  using construction[of 0] construction[of "- 1"] construction[of 1] by simp

text \<open>
  Claim C8. A miss is an ordinary return value, never an error: \<^verbatim>\<open>get\<close> of an
  absent key returns \<open>-1\<close> in any state. That value can be stored: in every reachable
  state \<^verbatim>\<open>put(k, -1)\<close> succeeds, key \<open>k\<close> then holds \<open>-1\<close>, and
  \<^verbatim>\<open>get(k)\<close> returns \<open>-1\<close>, the same result as a miss.
\<close>

theorem miss_result_is_a_storable_value:
  assumes "reach c ops = Inr r"
  shows "(\<exists>s1 s2. put (state r) k (- 1) = Inr s1 \<and> stored s1 k = Some (- 1) \<and>
            get s1 k = Inr (- 1, s2)) \<and>
         (\<forall>s0 k0. cache s0 k0 = None \<longrightarrow> get s0 k0 = Inr (- 1, s0))"
proof
  from reach_inv[OF assms] obtain as where "cache_inv (state r) as"
    by (auto simp: run_inv_def)
  from put_stores[OF this, of k "- 1"] obtain s1 as1 a where
    p: "put (state r) k (- 1) = Inr s1" and i: "cache_inv s1 as1" and c: "cache s1 k = Some a" and
    nv: "node_value (heap s1 a) = - 1"
    by blast
  from c nv have "stored s1 k = Some (- 1)" by (simp add: stored_def)
  with get_hit[OF i c] nv p
  show "\<exists>s1 s2. put (state r) k (- 1) = Inr s1 \<and> stored s1 k = Some (- 1) \<and>
            get s1 k = Inr (- 1, s2)" by auto
  show "\<forall>s0 k0. cache s0 k0 = None \<longrightarrow> get s0 k0 = Inr (- 1, s0)"
    by (simp add: get_miss)
qed

theorem miss_result_is_a_storable_value_witness:
  "\<exists>r. reach 2 [Put 1 1] = Inr r \<and>
       (\<exists>s1 s2. put (state r) 5 (- 1) = Inr s1 \<and> stored s1 5 = Some (- 1) \<and>
          get s1 5 = Inr (- 1, s2)) \<and>
       cache (state r) 7 = None \<and> get (state r) 7 = Inr (- 1, state r)"
proof -
  define r where "r = projr (reach 2 [Put 1 1])"
  have R: "reach 2 [Put 1 1] = Inr r"
    unfolding r_def by (simp add: run_eval)
  have A: "cache (state r) 7 = None"
    unfolding r_def by (simp add: run_eval)
  from miss_result_is_a_storable_value[OF R, of 5] A
  have "\<exists>s1 s2. put (state r) 5 (- 1) = Inr s1 \<and> stored s1 5 = Some (- 1) \<and>
          get s1 5 = Inr (- 1, s2)"
    and "get (state r) 7 = Inr (- 1, state r)"
    by simp_all
  with R A show ?thesis by blast
qed




text \<open>
  Claim C10. In any state that does not hold key \<open>k\<close>, \<^verbatim>\<open>get(k)\<close> returns
  \<open>-1\<close> and the state after the call is the state before it, links included.
\<close>

theorem get_absent_is_pure_read:
  assumes "cache s k = None"
  shows "get s k = Inr (- 1, s)"
  using assms by (simp add: get_def)

theorem get_absent_is_pure_read_witness:
  "\<exists>s. init 1 = Inr s \<and> cache s 5 = None \<and> get s 5 = Inr (- 1, s)"
proof -
  define s where "s = projr (init 1)"
  have I: "init 1 = Inr s" unfolding s_def by (simp add: init_def)
  have A: "cache s 5 = None" unfolding s_def by (simp add: init_def)
  from get_absent_is_pure_read[OF A] I A show ?thesis by blast
qed

end
